theory Spec2Isabelle
  imports Complex_Main "HOL-Library.Sublist"
begin

section \<open>Load Video: the data model\<close>

text \<open>
  A shallow embedding of \<^verbatim>\<open>load_video_node\<close>
  (\<^verbatim>\<open>backend/src/packages/chaiNNer_standard/image/video_frames/load_video.py\<close>).
  The media container that PyAV opens is the input: a record of the metadata fields
  the node reads and of the packets that \<^verbatim>\<open>container.demux\<close> delivers.
\<close>

text \<open>The exceptions the node can raise. \<open>FFmpegError\<close> stands for every error of
  the media library (\<^verbatim>\<open>av.open\<close>, \<^verbatim>\<open>demux\<close>, \<^verbatim>\<open>decode\<close>).\<close>

datatype py_error =
    RuntimeError | IndexError | TypeError | AttributeError | OverflowError
  | ZeroDivisionError | FFmpegError

text \<open>\<^verbatim>\<open>packet.stream.type\<close>: the node demuxes \<^verbatim>\<open>in_stream_v\<close> and
  \<^verbatim>\<open>in_stream_a\<close> only, so a packet is a video packet or an audio packet.\<close>

datatype stream_type = Video | Audio

text \<open>A packet: its decode timestamp (\<open>None\<close> when absent), the type of its stream and
  what \<^verbatim>\<open>packet.decode()\<close> does: raise, or return a list of frames.\<close>

record 'f packet =
  dts :: "int option"
  packet_type :: stream_type
  decode :: "py_error + 'f list"

text \<open>\<^verbatim>\<open>container.streams.video[0].codec_context\<close>: the fields the node reads, each
  a \<^verbatim>\<open>Fraction\<close> (an \<^verbatim>\<open>int\<close> for the frame count) or \<^verbatim>\<open>None\<close>.\<close>

record codec_context =
  framerate :: "rat option"
  rate :: "rat option"
  encoded_frame_count :: "int option"

record video_stream =
  codec_context :: codec_context
  average_rate :: "rat option"
  guessed_rate :: "rat option"
  base_rate :: "rat option"

text \<open>\<^verbatim>\<open>container.streams.audio[0]\<close>: the node reads \<^verbatim>\<open>codec.name\<close> only.\<close>

record audio_stream =
  codec_name :: string

text \<open>An opened container: its video and audio streams, its duration in microseconds
  and what \<^verbatim>\<open>container.demux(in_stream_v, in_stream_a)\<close> delivers, in order: a packet,
  or an error of the demuxer.\<close>

record 'f container =
  video :: "video_stream list"
  audio :: "audio_stream list"
  duration :: "int option"
  demux :: "(py_error + 'f packet) list"

text \<open>Modelled from the spec: \<^verbatim>\<open>split_file_path\<close> (\<^verbatim>\<open>nodes.utils.utils\<close>) is not
  among the sources. The spec has the node return the directory component and the file
  name component of the source path, so a path is the record of its components, and
  \<^verbatim>\<open>split_file_path\<close> reads them.\<close>

record path =
  directory :: string
  file_name :: string
  extension :: string

definition split_file_path :: "path \<Rightarrow> string \<times> string \<times> string" where
  "split_file_path p = (directory p, file_name p, extension p)"

text \<open>The media files: what \<^verbatim>\<open>av.open\<close> does for each path that exists, an error or
  an opened container. A path that is not listed cannot be opened.\<close>

type_synonym 'f files = "(path \<times> (py_error + 'f container)) list"

definition av_open :: "'f files \<Rightarrow> path \<Rightarrow> py_error + 'f container" where
  "av_open files p = (case map_of files p of None \<Rightarrow> Inl FFmpegError | Some r \<Rightarrow> r)"

text \<open>An element of the sequence, the tuple
  \<^verbatim>\<open>(in_frame, index, (audio_arr, in_stream_a.codec.name))\<close>. The conversion
  \<^verbatim>\<open>frame.to_ndarray(format="bgr24")\<close> is not modelled: a frame stands for its
  image.\<close>

type_synonym 'f element = "'f \<times> int \<times> ('f list \<times> string)"

definition element_index :: "'f element \<Rightarrow> int" where
  "element_index y = fst (snd y)"

definition element_audio :: "'f element \<Rightarrow> 'f list" where
  "element_audio y = fst (snd (snd y))"

text \<open>What a run does, in order: the operations on the container (\<open>Opened\<close> for
  \<^verbatim>\<open>av.open\<close>, \<open>Demuxed\<close> for a packet taken from \<^verbatim>\<open>container.demux\<close>,
  \<open>Decoded\<close> for a \<^verbatim>\<open>packet.decode()\<close> that returned, with the packet's type and
  the frames, \<open>Closed\<close> for \<^verbatim>\<open>container.close()\<close>), the elements handed to
  the consumer (\<open>Yield\<close>) and the exception that ends the run (\<open>Raise\<close>).\<close>

datatype 'f event =
    Opened
  | Demuxed
  | Decoded stream_type "'f list"
  | Yield "'f element"
  | Raise py_error
  | Closed

section \<open>Python numbers\<close>

text \<open>The frame rate is a \<^verbatim>\<open>Fraction\<close> or a \<^verbatim>\<open>float\<close>. A finite binary64 float is
  modelled by the rational number it stands for (the sign of a zero is not modelled).\<close>

datatype pynum = Fraction rat | Float rat

definition num_value :: "pynum \<Rightarrow> rat" where
  "num_value v = (case v of Fraction r \<Rightarrow> r | Float x \<Rightarrow> x)"

text \<open>Truth of a \<^verbatim>\<open>Fraction\<close> or \<^verbatim>\<open>None\<close>: \<^verbatim>\<open>None\<close> and a zero fraction are false.
  \<^verbatim>\<open>a or b\<close> is \<^verbatim>\<open>a\<close> when \<^verbatim>\<open>a\<close> is true, and \<^verbatim>\<open>b\<close> otherwise.\<close>

definition truthy :: "rat option \<Rightarrow> bool" where
  "truthy x = (case x of None \<Rightarrow> False | Some r \<Rightarrow> r \<noteq> 0)"

definition py_or :: "rat option \<Rightarrow> rat option \<Rightarrow> rat option" where
  "py_or a b = (if truthy a then a else b)"

text \<open>Rounding to the nearest integer, a tie to the even one: \<^verbatim>\<open>round\<close> of a
  \<^verbatim>\<open>Fraction\<close>, and the rounding of float arithmetic.\<close>

definition round_half_even :: "rat \<Rightarrow> int" where
  "round_half_even x =
     (let f = \<lfloor>x\<rfloor>; r = x - of_int f in
      if 2 * r < 1 then f else if 2 * r > 1 then f + 1 else if even f then f else f + 1)"

text \<open>The number of binary digits of a natural number.\<close>

fun bit_length :: "nat \<Rightarrow> nat" where
  "bit_length n = (if n = 0 then 0 else Suc (bit_length (n div 2)))"

text \<open>For \<open>x > 0\<close>, the exponent \<open>e\<close> with \<open>2 ^ e \<le> x < 2 ^ (e + 1)\<close>.\<close>

definition floor_log2 :: "rat \<Rightarrow> int" where
  "floor_log2 x =
     (if 1 \<le> x then int (bit_length (nat \<lfloor>x\<rfloor>)) - 1
      else - int (bit_length (nat (\<lceil>1 / x\<rceil> - 1))))"

definition pow2 :: "int \<Rightarrow> rat" where
  "pow2 e = (if 0 \<le> e then 2 ^ nat e else 1 / 2 ^ nat (- e))"

text \<open>The binary64 number nearest to a rational, a tie to the even significand: 53
  significant bits, the least exponent \<open>- 1022\<close> (below it the spacing stays
  \<open>2 ^ - 1074\<close>), and no bound on the exponent from above: \<open>float_overflow\<close> tells
  whether the result is beyond the largest float.\<close>

definition nearest_float :: "rat \<Rightarrow> rat" where
  "nearest_float x =
     (if x = 0 then 0
      else
        (let e = max (floor_log2 \<bar>x\<bar>) (- 1022); ulp = pow2 (e - 52)
         in of_int (round_half_even (x / ulp)) * ulp))"

definition float_overflow :: "rat \<Rightarrow> bool" where
  "float_overflow x = (pow2 1024 \<le> \<bar>x\<bar>)"

text \<open>\<^verbatim>\<open>a / b\<close> on two \<^verbatim>\<open>int\<close>s: the float nearest to the quotient;
  \<^verbatim>\<open>OverflowError\<close> when it is too large for a float.\<close>

definition py_truediv :: "int \<Rightarrow> int \<Rightarrow> py_error + rat" where
  "py_truediv a b =
     (if b = 0 then Inl ZeroDivisionError
      else
        (let x = nearest_float (of_int a / of_int b)
         in if float_overflow x then Inl OverflowError else Inr x))"

text \<open>\<^verbatim>\<open>x * y\<close> on two floats: the float nearest to the product, or an infinity
  (\<open>None\<close>) when that is too large.\<close>

definition float_mul :: "rat \<Rightarrow> rat \<Rightarrow> rat option" where
  "float_mul x y =
     (let z = nearest_float (x * y) in if float_overflow z then None else Some z)"

text \<open>\<^verbatim>\<open>int(x)\<close> on a float: truncation towards zero; \<^verbatim>\<open>OverflowError\<close> on an
  infinity.\<close>

definition py_int :: "rat option \<Rightarrow> py_error + int" where
  "py_int x =
     (case x of
        None \<Rightarrow> Inl OverflowError
      | Some z \<Rightarrow> Inr (if 0 \<le> z then \<lfloor>z\<rfloor> else \<lceil>z\<rceil>))"

text \<open>\<^verbatim>\<open>round(fps, 2)\<close>. On a \<^verbatim>\<open>Fraction\<close> it is
  \<^verbatim>\<open>Fraction(round(fps * 100), 100)\<close>, exact; on a float it is the float nearest to the
  value rounded to two decimals.\<close>

definition py_round2 :: "pynum \<Rightarrow> pynum" where
  "py_round2 v =
     (case v of
        Fraction r \<Rightarrow> Fraction (of_int (round_half_even (r * 100)) / 100)
      | Float x \<Rightarrow> Float (nearest_float (of_int (round_half_even (x * 100)) / 100)))"

text \<open>\<^verbatim>\<open>float(fps)\<close>, as \<^verbatim>\<open>duration * fps\<close> takes it when \<^verbatim>\<open>fps\<close> is a
  \<^verbatim>\<open>Fraction\<close>: numerator divided by denominator.\<close>

definition py_float :: "pynum \<Rightarrow> py_error + rat" where
  "py_float v =
     (case v of
        Fraction r \<Rightarrow> py_truediv (fst (quotient_of r)) (snd (quotient_of r))
      | Float x \<Rightarrow> Inr x)"

section \<open>Setting up: frame rate and frame count\<close>

text \<open>Lines 76 to 87 of \<^verbatim>\<open>load_video_node\<close>: the frame rate.\<close>

definition resolve_fps :: "video_stream \<Rightarrow> py_error + pynum" where
  "resolve_fps s =
     (let fps = py_or (framerate (codec_context s)) (rate (codec_context s));
          rate' = py_or (py_or (average_rate s) (guessed_rate s)) (base_rate s);
          ratio =
            (case rate' of
               None \<Rightarrow> Inl AttributeError
             | Some r \<Rightarrow>
                 map_sum id Float (py_truediv (fst (quotient_of r)) (snd (quotient_of r))))
      in
        if fps = None \<and> rate' = None then Inl RuntimeError
        else
          map_sum id py_round2
            (case fps of
               None \<Rightarrow> ratio
             | Some f \<Rightarrow> if f = 0 then ratio else Inr (Fraction f)))"

text \<open>Lines 88 to 94: the frame count, from the codec context's count, the container's
  duration (in microseconds) and the frame rate.\<close>

definition estimate_frame_count :: "int option \<Rightarrow> int option \<Rightarrow> pynum \<Rightarrow> py_error + int" where
  "estimate_frame_count frame_count duration_us fps =
     (case duration_us of
        None \<Rightarrow> Inl TypeError
      | Some d \<Rightarrow>
          (case py_truediv d 1000000 of
             Inl e \<Rightarrow> Inl e
           | Inr seconds \<Rightarrow>
               (let estimate =
                      (case py_float fps of
                         Inl e \<Rightarrow> Inl e
                       | Inr r \<Rightarrow> py_int (float_mul seconds r))
                in
                  (case frame_count of
                     None \<Rightarrow> estimate
                   | Some n \<Rightarrow> if n = 0 then estimate else Inr n))))"

text \<open>\<^verbatim>\<open>xs[0]\<close>: \<^verbatim>\<open>IndexError\<close> on an empty list.\<close>

definition item0 :: "'a list \<Rightarrow> py_error + 'a" where
  "item0 xs = (case xs of [] \<Rightarrow> Inl IndexError | x # xs' \<Rightarrow> Inr x)"

text \<open>Lines 72 to 100, after \<^verbatim>\<open>av.open\<close>: the frame rate, the advertised length and
  the audio stream, or the first exception.\<close>

definition prepare ::
  "'f container \<Rightarrow> bool \<Rightarrow> int \<Rightarrow> py_error + (pynum \<times> int \<times> audio_stream)"
where
  "prepare container use_limit limit =
     (case item0 (video container) of
        Inl e \<Rightarrow> Inl e
      | Inr in_stream_v \<Rightarrow>
          (case resolve_fps in_stream_v of
             Inl e \<Rightarrow> Inl e
           | Inr fps \<Rightarrow>
               (case estimate_frame_count
                       (encoded_frame_count (codec_context in_stream_v))
                       (duration container) fps of
                  Inl e \<Rightarrow> Inl e
                | Inr frame_count \<Rightarrow>
                    (case item0 (audio container) of
                       Inl e \<Rightarrow> Inl e
                     | Inr in_stream_a \<Rightarrow>
                         Inr (fps,
                              if use_limit then min frame_count limit else frame_count,
                              in_stream_a)))))"

section \<open>The generator\<close>

text \<open>\<^verbatim>\<open>for frame in packet.decode(): ...\<close> (lines 115 to 122). The result is the
  events of the loop and the values of \<^verbatim>\<open>index\<close> and \<^verbatim>\<open>audio_arr\<close> after it.\<close>

fun frame_loop ::
  "stream_type \<Rightarrow> string \<Rightarrow> 'f list \<Rightarrow> int \<Rightarrow> 'f list \<Rightarrow> 'f event list \<times> int \<times> 'f list"
where
  "frame_loop pt codec [] index audio_arr = ([], index, audio_arr)"
| "frame_loop pt codec (frame # frames) index audio_arr =
     (case pt of
        Video \<Rightarrow>
          (case frame_loop pt codec frames (index + 1) [] of
             (evs, i, a) \<Rightarrow> (Yield (frame, index, (audio_arr, codec)) # evs, i, a))
      | Audio \<Rightarrow> frame_loop pt codec frames index (audio_arr @ [frame]))"

text \<open>How the body of the packet loop ends: \<open>Next\<close> goes on to the next packet
  (\<^verbatim>\<open>continue\<close>, or the end of the body), \<open>Stop\<close> leaves the loop (\<^verbatim>\<open>break\<close>, or
  an exception).\<close>

datatype flow = Next | Stop

text \<open>The body of \<^verbatim>\<open>for packet in container.demux(...)\<close> (lines 108 to 122).\<close>

definition loop_body ::
  "bool \<Rightarrow> int \<Rightarrow> string \<Rightarrow> 'f packet \<Rightarrow> int \<Rightarrow> 'f list
    \<Rightarrow> 'f event list \<times> flow \<times> int \<times> 'f list"
where
  "loop_body use_limit limit codec packet index audio_arr =
     (if dts packet = None then ([], Next, index, audio_arr)
      else if use_limit \<and> index \<ge> limit then ([], Stop, index, audio_arr)
      else
        (case decode packet of
           Inl e \<Rightarrow> ([Raise e], Stop, index, audio_arr)
         | Inr frames \<Rightarrow>
             (case frame_loop (packet_type packet) codec frames index audio_arr of
                (evs, i, a) \<Rightarrow> (Decoded (packet_type packet) frames # evs, Next, i, a))))"

text \<open>The packet loop over what \<^verbatim>\<open>container.demux\<close> delivers: a packet, or an error
  of the demuxer, which ends the run.\<close>

fun demux_loop ::
  "bool \<Rightarrow> int \<Rightarrow> string \<Rightarrow> (py_error + 'f packet) list \<Rightarrow> int \<Rightarrow> 'f list
    \<Rightarrow> 'f event list \<times> int \<times> 'f list"
where
  "demux_loop use_limit limit codec [] index audio_arr = ([], index, audio_arr)"
| "demux_loop use_limit limit codec (Inl e # rest) index audio_arr =
     ([Raise e], index, audio_arr)"
| "demux_loop use_limit limit codec (Inr packet # rest) index audio_arr =
     (case loop_body use_limit limit codec packet index audio_arr of
        (evs, Stop, i, a) \<Rightarrow> (Demuxed # evs, i, a)
      | (evs, Next, i, a) \<Rightarrow>
          (case demux_loop use_limit limit codec rest i a of
             (evs', i', a') \<Rightarrow> (Demuxed # evs @ evs', i', a')))"

text \<open>\<^verbatim>\<open>def iterator()\<close> (lines 102 to 122): \<^verbatim>\<open>index = 0\<close>, \<^verbatim>\<open>audio_arr = []\<close>,
  then the packet loop. A generator is lazy: a consumer that asks for \<open>n\<close> elements and
  then abandons it has run the events up to the \<open>n\<close>-th \<open>Yield\<close>.\<close>

definition iterator ::
  "bool \<Rightarrow> int \<Rightarrow> string \<Rightarrow> (py_error + 'f packet) list \<Rightarrow> 'f event list"
where
  "iterator use_limit limit codec packets =
     fst (demux_loop use_limit limit codec packets 0 [])"

text \<open>The elements a list of events hands to the consumer, in order.\<close>

fun yields :: "'f event list \<Rightarrow> 'f element list" where
  "yields [] = []"
| "yields (Yield y # evs) = y # yields evs"
| "yields (_ # evs) = yields evs"

text \<open>The frames a list of events decoded, each with the type of its packet, in
  order; and the audio frames among them.\<close>

fun units :: "'f event list \<Rightarrow> (stream_type \<times> 'f) list" where
  "units [] = []"
| "units (Decoded pt frames # evs) = map (Pair pt) frames @ units evs"
| "units (_ # evs) = units evs"

fun audio_units :: "(stream_type \<times> 'f) list \<Rightarrow> 'f list" where
  "audio_units [] = []"
| "audio_units ((Audio, f) # us) = f # audio_units us"
| "audio_units ((Video, f) # us) = audio_units us"

definition decoded_audio :: "'f event list \<Rightarrow> 'f list" where
  "decoded_audio evs = audio_units (units evs)"

text \<open>The content of \<^verbatim>\<open>audio_arr\<close> when the generator has run to its end.\<close>

definition leftover_audio ::
  "bool \<Rightarrow> int \<Rightarrow> string \<Rightarrow> (py_error + 'f packet) list \<Rightarrow> 'f list"
where
  "leftover_audio use_limit limit codec packets =
     snd (snd (demux_loop use_limit limit codec packets 0 []))"

text \<open>The events a consumer has run that takes \<open>n\<close> elements and then stops asking.\<close>

fun consumed :: "nat \<Rightarrow> 'f event list \<Rightarrow> 'f event list" where
  "consumed n [] = []"
| "consumed 0 (ev # evs) = []"
| "consumed (Suc n) (Yield y # evs) = Yield y # consumed n evs"
| "consumed (Suc n) (ev # evs) = ev # consumed (Suc n) evs"

section \<open>The node\<close>

text \<open>\<^verbatim>\<open>Iterator.from_iter(iter_supplier=iterator, expected_length=frame_count)\<close>: the
  generator, given by the events of running it, and the advertised length.\<close>

record 'f iterator_info =
  iter_supplier :: "'f event list"
  expected_length :: int

text \<open>\<^verbatim>\<open>load_video_node(path, use_limit, limit)\<close>: the events of the call, and the
  exception it raises or the tuple it returns, the iterator, the directory, the name and
  the frame rate.\<close>

definition load_video_node ::
  "'f files \<Rightarrow> path \<Rightarrow> bool \<Rightarrow> int
    \<Rightarrow> 'f event list \<times> (py_error + 'f iterator_info \<times> string \<times> string \<times> pynum)"
where
  "load_video_node files p use_limit limit =
     (case split_file_path p of
        (video_dir, video_name, _) \<Rightarrow>
          (case av_open files p of
             Inl e \<Rightarrow> ([Raise e], Inl e)
           | Inr container \<Rightarrow>
               (case prepare container use_limit limit of
                  Inl e \<Rightarrow> ([Opened, Raise e], Inl e)
                | Inr (fps, frame_count, in_stream_a) \<Rightarrow>
                    ([Opened],
                     Inr (\<lparr>iter_supplier =
                             iterator use_limit limit (codec_name in_stream_a) (demux container),
                           expected_length = frame_count\<rparr>,
                          video_dir, video_name, fps)))))"

text \<open>A whole run: the call of the node, then a consumer that takes every element
  (\<open>None\<close>) or takes \<open>n\<close> elements and abandons the generator (\<open>Some n\<close>).\<close>

definition run :: "'f files \<Rightarrow> path \<Rightarrow> bool \<Rightarrow> int \<Rightarrow> nat option \<Rightarrow> 'f event list" where
  "run files p use_limit limit taken =
     (case load_video_node files p use_limit limit of
        (evs, Inl e) \<Rightarrow> evs
      | (evs, Inr (it, _)) \<Rightarrow>
          evs @ (case taken of
                   None \<Rightarrow> iter_supplier it
                 | Some n \<Rightarrow> consumed n (iter_supplier it)))"

section \<open>Notions the claims are stated with\<close>

text \<open>The elements of a list carry the indices \<open>i\<close>, \<open>i + 1\<close>, ... in order.\<close>

fun counts_from :: "int \<Rightarrow> 'f element list \<Rightarrow> bool" where
  "counts_from i [] = True"
| "counts_from i (y # ys) = (element_index y = i \<and> counts_from (i + 1) ys)"

text \<open>The spec's attachment rule, over the decoded frames in arrival order: a video frame
  gets the audio decoded since the video frame before it (\<open>acc\<close> is the audio collected
  so far), and collecting starts again after it. \<open>spec_pending_audio\<close> is the audio
  collected after the last video frame.\<close>

fun spec_attached_audio :: "(stream_type \<times> 'f) list \<Rightarrow> 'f list \<Rightarrow> 'f list list" where
  "spec_attached_audio [] acc = []"
| "spec_attached_audio ((Video, f) # us) acc = acc # spec_attached_audio us []"
| "spec_attached_audio ((Audio, f) # us) acc = spec_attached_audio us (acc @ [f])"

fun spec_pending_audio :: "(stream_type \<times> 'f) list \<Rightarrow> 'f list \<Rightarrow> 'f list" where
  "spec_pending_audio [] acc = acc"
| "spec_pending_audio ((Video, f) # us) acc = spec_pending_audio us []"
| "spec_pending_audio ((Audio, f) # us) acc = spec_pending_audio us (acc @ [f])"

text \<open>The frames of a container that a run without a limit decodes, each with the type
  of its packet, in order: those of the packets that carry a decode timestamp, up to the
  first error of the demuxer or of a decoder.\<close>

fun container_units :: "(py_error + 'f packet) list \<Rightarrow> (stream_type \<times> 'f) list" where
  "container_units [] = []"
| "container_units (Inl e # rest) = []"
| "container_units (Inr packet # rest) =
     (if dts packet = None then container_units rest
      else
        (case decode packet of
           Inl e \<Rightarrow> []
         | Inr frames \<Rightarrow> map (Pair (packet_type packet)) frames @ container_units rest))"

text \<open>What the demuxer delivers is not a packet without a decode timestamp.\<close>

definition has_dts :: "py_error + 'f packet \<Rightarrow> bool" where
  "has_dts x = (case x of Inl e \<Rightarrow> True | Inr packet \<Rightarrow> dts packet \<noteq> None)"

text \<open>No video packet decodes to more than one frame.\<close>

definition one_frame_per_video_packet :: "(py_error + 'f packet) list \<Rightarrow> bool" where
  "one_frame_per_video_packet ps =
     list_all
       (\<lambda>x. case x of
              Inl e \<Rightarrow> True
            | Inr p \<Rightarrow>
                (case decode p of
                   Inl e \<Rightarrow> True
                 | Inr fs \<Rightarrow> packet_type p = Audio \<or> length fs \<le> 1))
       ps"

text \<open>The first of a list of candidates that is present and not zero.\<close>

fun first_usable :: "rat option list \<Rightarrow> rat option" where
  "first_usable [] = None"
| "first_usable (c # cs) = (if truthy c then c else first_usable cs)"

text \<open>A ratio converted by true division of its numerator by its denominator, then
  rounded to two decimals.\<close>

definition converted :: "rat \<Rightarrow> py_error + pynum" where
  "converted r =
     map_sum id (\<lambda>x. py_round2 (Float x))
       (py_truediv (fst (quotient_of r)) (snd (quotient_of r)))"




section \<open>Python numbers: lemmas\<close>

declare bit_length.simps [simp del]

lemma round_half_even_of_int: "round_half_even (of_int n) = n"
  by (simp add: round_half_even_def)

lemma round_half_even_range:
  "round_half_even x = \<lfloor>x\<rfloor> \<or> round_half_even x = \<lfloor>x\<rfloor> + 1"
  by (simp add: round_half_even_def Let_def)

lemma round_half_even_mono:
  assumes "x \<le> y"
  shows "round_half_even x \<le> round_half_even y"
proof (cases "\<lfloor>x\<rfloor> = \<lfloor>y\<rfloor>")
  case True
  with assms have "x - of_int \<lfloor>x\<rfloor> \<le> y - of_int \<lfloor>y\<rfloor>" by simp
  with True show ?thesis
    by (auto simp: round_half_even_def Let_def)
next
  case False
  with assms have "\<lfloor>x\<rfloor> < \<lfloor>y\<rfloor>"
    using floor_mono[OF assms] by linarith
  moreover have "round_half_even x \<le> \<lfloor>x\<rfloor> + 1"
    using round_half_even_range[of x] by auto
  moreover have "\<lfloor>y\<rfloor> \<le> round_half_even y"
    using round_half_even_range[of y] by auto
  ultimately show ?thesis by linarith
qed

lemma round_half_even_ge: "of_int n \<le> x \<Longrightarrow> n \<le> round_half_even x"
  using round_half_even_mono[of "of_int n" x] by (simp add: round_half_even_of_int)

lemma pow2_pos: "0 < pow2 e"
  by (simp add: pow2_def)

lemma pow2_nat: "pow2 (int n) = 2 ^ n"
  by (simp add: pow2_def)

lemma pow2_add: "pow2 (a + b) = pow2 a * pow2 b"
proof -
  have "pow2 e = 2 powi e" for e
    by (simp add: pow2_def power_int_def field_simps)
  then show ?thesis by (simp add: power_int_add)
qed

lemma bit_length_lower: "0 < n \<Longrightarrow> 2 ^ (bit_length n - 1) \<le> n"
proof (induction n rule: bit_length.induct)
  case (1 n)
  show ?case
  proof (cases "n div 2 = 0")
    case True
    with "1.prems" have "n = 1" by (simp add: div_eq_0_iff)
    then show ?thesis by (simp add: bit_length.simps[of "Suc 0"] bit_length.simps[of 0])
  next
    case False
    then have pos: "0 < n div 2" by simp
    with "1.IH" "1.prems" have ih: "2 ^ (bit_length (n div 2) - 1) \<le> n div 2" by simp
    from pos have "bit_length (n div 2) \<noteq> 0"
      by (simp add: bit_length.simps[of "n div 2"])
    then have "bit_length n - 1 = Suc (bit_length (n div 2) - 1)"
      using "1.prems" by (simp add: bit_length.simps[of n])
    with ih show ?thesis by simp
  qed
qed

lemma bit_length_pos: "0 < n \<Longrightarrow> 0 < bit_length n"
  by (simp add: bit_length.simps[of n])

lemma nearest_float_nonneg:
  assumes "0 \<le> x"
  shows "0 \<le> nearest_float x"
proof (cases "x = 0")
  case True
  then show ?thesis by (simp add: nearest_float_def)
next
  case False
  define u where "u = pow2 (max (floor_log2 \<bar>x\<bar>) (- 1022) - 52)"
  have u: "0 < u" by (simp add: u_def pow2_pos)
  with assms have "of_int 0 \<le> x / u" by simp
  then have "0 \<le> round_half_even (x / u)" by (rule round_half_even_ge)
  with u False show ?thesis
    by (simp add: nearest_float_def Let_def u_def[symmetric])
qed


lemma quotient_of_ratio:
  "of_int (fst (quotient_of r)) / of_int (snd (quotient_of r)) = r"
proof -
  obtain n d where q: "quotient_of r = (n, d)" by (cases "quotient_of r")
  from quotient_of_div[OF q] q show ?thesis by simp
qed

lemma quotient_of_denominator: "snd (quotient_of r) \<noteq> 0"
  using quotient_of_denom_pos[of r] by (cases "quotient_of r") auto



text \<open>The exponent of a positive rational is what \<open>floor_log2\<close> computes, and it is
  the only one.\<close>

lemma bit_length_upper: "n < 2 ^ bit_length n"
proof (induction n rule: bit_length.induct)
  case (1 n)
  show ?case
  proof (cases "n = 0")
    case True
    then show ?thesis by (simp add: bit_length.simps[of 0])
  next
    case False
    with "1.IH" have "n div 2 < 2 ^ bit_length (n div 2)" by simp
    then have "n < 2 * 2 ^ bit_length (n div 2)" by linarith
    with False show ?thesis by (simp add: bit_length.simps[of n])
  qed
qed

lemma pow2_mono: "a \<le> b \<Longrightarrow> pow2 a \<le> pow2 b"
proof -
  assume "a \<le> b"
  then have "1 \<le> pow2 (b - a)" by (simp add: pow2_def)
  moreover have "pow2 b = pow2 a * pow2 (b - a)"
    using pow2_add[of a "b - a"] by simp
  ultimately show ?thesis using pow2_pos[of a] by simp
qed

lemma floor_log2_bounds:
  assumes "0 < x"
  shows "pow2 (floor_log2 x) \<le> x \<and> x < pow2 (floor_log2 x + 1)"
proof (cases "1 \<le> x")
  case True
  define n where "n = nat \<lfloor>x\<rfloor>"
  define k where "k = bit_length n - 1"
  from True have n: "0 < n" by (simp add: n_def)
  have bl: "bit_length n = Suc k"
    using bit_length_pos[OF n] by (simp add: k_def)
  from True have e: "floor_log2 x = int k"
    by (simp add: floor_log2_def n_def[symmetric] bl)
  have "(2::rat) ^ k \<le> of_nat n"
    using bit_length_lower[OF n] unfolding k_def
    by (metis of_nat_le_iff of_nat_numeral of_nat_power)
  also have "of_nat n \<le> x"
    using True by (simp add: n_def)
  finally have lower: "pow2 (int k) \<le> x" by (simp add: pow2_nat)
  have "x < of_int \<lfloor>x\<rfloor> + 1" by linarith
  also have "of_int \<lfloor>x\<rfloor> + 1 = (of_nat (n + 1) :: rat)"
    using True by (simp add: n_def)
  also have "(of_nat (n + 1) :: rat) \<le> of_nat (2 ^ Suc k)"
    using bit_length_upper[of n] unfolding bl
    by (intro of_nat_mono) simp
  also have "(of_nat (2 ^ Suc k) :: rat) = pow2 (int k + 1)"
    using pow2_nat[of "Suc k"] by (simp add: add.commute)
  finally have upper: "x < pow2 (int k + 1)" .
  from lower upper e show ?thesis by simp
next
  case False
  with assms have x: "0 < x" "x < 1" by simp_all
  define c where "c = \<lceil>1 / x\<rceil>"
  define m where "m = nat (c - 1)"
  define k where "k = bit_length m"
  from x have inv: "1 < 1 / x" by (simp add: field_simps)
  then have c: "2 \<le> c" unfolding c_def by linarith
  then have m: "0 < m" "int m = c - 1" by (simp_all add: m_def)
  from False have e: "floor_log2 x = - int k"
    by (simp add: floor_log2_def c_def[symmetric] m_def[symmetric] k_def)
  have kpos: "0 < k" using bit_length_pos[OF m(1)] by (simp add: k_def)
  have "1 / x \<le> of_int c" unfolding c_def by linarith
  also have "of_int c = (of_nat (m + 1) :: rat)"
    using m(2) by simp
  also have "(of_nat (m + 1) :: rat) \<le> of_nat (2 ^ k)"
    using bit_length_upper[of m] unfolding k_def
    by (intro of_nat_mono) simp
  finally have "1 / x \<le> 2 ^ k" by simp
  with x have "1 \<le> x * 2 ^ k" by (simp add: field_simps)
  then have "1 / 2 ^ k \<le> x" by (simp add: field_simps)
  moreover have "pow2 (- int k) = 1 / 2 ^ k"
    using kpos by (simp add: pow2_def)
  ultimately have lower: "pow2 (- int k) \<le> x" by simp
  have "(2::rat) ^ (k - 1) \<le> of_nat m"
    using bit_length_lower[OF m(1)] unfolding k_def
    by (metis of_nat_le_iff of_nat_numeral of_nat_power)
  also have "(of_nat m :: rat) = of_int c - 1"
    using m(2) by (metis of_int_of_nat_eq of_int_diff of_int_1)
  also have "of_int c - 1 < 1 / x" unfolding c_def by linarith
  finally have "2 ^ (k - 1) < 1 / x" .
  with x have "x * 2 ^ (k - 1) < 1" by (simp add: field_simps)
  then have "x < 1 / 2 ^ (k - 1)" by (simp add: field_simps)
  moreover have "pow2 (- int k + 1) = 1 / 2 ^ (k - 1)"
  proof (cases "k = 1")
    case True
    then show ?thesis by (simp add: pow2_def)
  next
    case False
    with kpos have "nat (int k - 1) = k - 1" "\<not> 0 \<le> 1 - int k" by simp_all
    then show ?thesis by (simp add: pow2_def)
  qed
  ultimately have upper: "x < pow2 (- int k + 1)" by simp
  from lower upper e show ?thesis by simp
qed

lemma floor_log2_unique:
  assumes "pow2 e \<le> x" and "x < pow2 (e + 1)"
  shows "floor_log2 x = e"
proof -
  from assms(1) pow2_pos[of e] have "0 < x" by linarith
  note b = floor_log2_bounds[OF this]
  have "\<not> floor_log2 x < e"
  proof
    assume "floor_log2 x < e"
    then have "pow2 (floor_log2 x + 1) \<le> pow2 e" by (intro pow2_mono) simp
    with b assms(1) show False by linarith
  qed
  moreover have "\<not> e < floor_log2 x"
  proof
    assume "e < floor_log2 x"
    then have "pow2 (e + 1) \<le> pow2 (floor_log2 x)" by (intro pow2_mono) simp
    with b assms(2) show False by linarith
  qed
  ultimately show ?thesis by linarith
qed

text \<open>Nearest floats, by the exponent: the way to compute one.\<close>

lemma nearest_float_exponent:
  assumes "pow2 e \<le> \<bar>x\<bar>" and "\<bar>x\<bar> < pow2 (e + 1)" and "- 1022 \<le> e"
  shows "nearest_float x = of_int (round_half_even (x / pow2 (e - 52))) * pow2 (e - 52)"
proof -
  from assms(1) pow2_pos[of e] have "x \<noteq> 0" by auto
  with floor_log2_unique[OF assms(1,2)] assms(3) show ?thesis
    by (simp add: nearest_float_def Let_def max_def)
qed

text \<open>Rounding a quotient of integers, by division with remainder.\<close>

lemma round_half_even_divide:
  assumes "0 < b"
  shows "round_half_even (of_int a / of_int b) =
           (if 2 * (a mod b) < b then a div b
            else if b < 2 * (a mod b) then a div b + 1
            else if even (a div b) then a div b else a div b + 1)"
proof -
  have fl: "\<lfloor>(of_int a / of_int b :: rat)\<rfloor> = a div b"
    by (simp add: floor_divide_of_int_eq)
  from assms have b: "(0::rat) < of_int b" by simp
  have "(of_int a :: rat) = of_int (a div b) * of_int b + of_int (a mod b)"
    by (metis div_mult_mod_eq of_int_add of_int_mult)
  with b have fr: "(of_int a / of_int b :: rat) - of_int (a div b) = of_int (a mod b) / of_int b"
    by (simp add: field_simps)
  have lt: "2 * (of_int (a mod b) / of_int b :: rat) < 1 \<longleftrightarrow> 2 * (a mod b) < b"
  proof -
    have "2 * (of_int (a mod b) / of_int b :: rat) < 1 \<longleftrightarrow> (of_int (2 * (a mod b)) :: rat) < of_int b"
      using b by (simp add: field_simps)
    then show ?thesis by (simp only: of_int_less_iff)
  qed
  have gt: "1 < 2 * (of_int (a mod b) / of_int b :: rat) \<longleftrightarrow> b < 2 * (a mod b)"
  proof -
    have "1 < 2 * (of_int (a mod b) / of_int b :: rat) \<longleftrightarrow> (of_int b :: rat) < of_int (2 * (a mod b))"
      using b by (simp add: field_simps)
    then show ?thesis by (simp only: of_int_less_iff)
  qed
  show ?thesis
    unfolding round_half_even_def Let_def fl fr lt gt by simp
qed

lemma round_half_even_numeral [simp]:
  "round_half_even (numeral a / numeral b) =
     (if 2 * (numeral a mod numeral b) < (numeral b :: int) then numeral a div numeral b
      else if (numeral b :: int) < 2 * (numeral a mod numeral b) then numeral a div numeral b + 1
      else if even (numeral a div numeral b :: int) then numeral a div numeral b
      else numeral a div numeral b + 1)"
  "round_half_even (- (numeral a / numeral b)) =
     (if 2 * (- numeral a mod numeral b) < (numeral b :: int) then - numeral a div numeral b
      else if (numeral b :: int) < 2 * (- numeral a mod numeral b) then - numeral a div numeral b + 1
      else if even (- numeral a div numeral b :: int) then - numeral a div numeral b
      else - numeral a div numeral b + 1)"
  "round_half_even (numeral a) = numeral a"
  "round_half_even (- numeral a) = - numeral a"
  "round_half_even 0 = 0"
  "round_half_even 1 = 1"
  using round_half_even_divide[of "numeral b" "numeral a"]
    round_half_even_divide[of "numeral b" "- numeral a"]
    round_half_even_of_int[of "numeral a"] round_half_even_of_int[of "- numeral a"]
    round_half_even_of_int[of 0] round_half_even_of_int[of 1]
  by simp_all

lemma pow2_numeral [simp]:
  "pow2 (numeral n) = 2 ^ numeral n"
  "pow2 (- numeral n) = 1 / 2 ^ numeral n"
  "pow2 0 = 1"
  "pow2 1 = 2"
  "pow2 (- 1) = 1 / 2"
  by (simp_all add: pow2_def)

text \<open>A nearest float is no larger than the next power of two: below \<open>2 ^ 1023\<close>
  nothing overflows.\<close>

lemma pow2_less_imp: "pow2 a < pow2 b \<Longrightarrow> a < b"
  using pow2_mono[of b a] by (cases "a < b") auto

lemma round_half_even_le: "x \<le> of_int n \<Longrightarrow> round_half_even x \<le> n"
  using round_half_even_mono[of x "of_int n"] by (simp add: round_half_even_of_int)

lemma nearest_float_bound:
  assumes "\<bar>x\<bar> < pow2 n" and "- 1022 < n"
  shows "\<bar>nearest_float x\<bar> \<le> pow2 n"
proof (cases "x = 0")
  case True
  then show ?thesis using pow2_pos[of n] by (simp add: nearest_float_def)
next
  case False
  then have ax: "0 < \<bar>x\<bar>" by simp
  define e where "e = max (floor_log2 \<bar>x\<bar>) (- 1022)"
  define u where "u = pow2 (e - 52)"
  note b = floor_log2_bounds[OF ax]
  from b assms(1) have "pow2 (floor_log2 \<bar>x\<bar>) < pow2 n" by linarith
  then have "floor_log2 \<bar>x\<bar> < n" by (rule pow2_less_imp)
  with assms(2) have en: "e + 1 \<le> n" by (simp add: e_def)
  have "floor_log2 \<bar>x\<bar> + 1 \<le> e + 1" by (simp add: e_def)
  then have "pow2 (floor_log2 \<bar>x\<bar> + 1) \<le> pow2 (e + 1)" by (rule pow2_mono)
  with b have xe: "\<bar>x\<bar> < pow2 (e + 1)" by linarith
  have u: "0 < u" by (simp add: u_def pow2_pos)
  have split: "pow2 (e + 1) = 2 ^ 53 * u"
    using pow2_add[of 53 "e - 52"] pow2_nat[of 53] by (simp add: u_def algebra_simps)
  from xe split u have "\<bar>x\<bar> / u < 2 ^ 53" by (simp add: pos_divide_less_eq)
  then have "x / u \<le> of_int (2 ^ 53)" "of_int (- (2 ^ 53)) \<le> x / u"
    using u by (simp_all add: abs_less_iff field_simps)
  then have "round_half_even (x / u) \<le> 2 ^ 53" "- (2 ^ 53) \<le> round_half_even (x / u)"
    by (auto intro: round_half_even_le round_half_even_ge)
  then have "\<bar>round_half_even (x / u)\<bar> \<le> 2 ^ 53" by simp
  then have "\<bar>(of_int (round_half_even (x / u)) :: rat)\<bar> \<le> 2 ^ 53"
    by (metis of_int_abs of_int_le_iff of_int_numeral of_int_power)
  then have "\<bar>of_int (round_half_even (x / u)) * u\<bar> \<le> 2 ^ 53 * u"
    using u by (simp add: abs_mult)
  also have "\<dots> = pow2 (e + 1)" by (simp only: split)
  also have "\<dots> \<le> pow2 n" using en by (rule pow2_mono)
  finally show ?thesis
    using False by (simp add: nearest_float_def Let_def e_def[symmetric] u_def[symmetric])
qed

lemma nearest_float_no_overflow:
  "\<bar>x\<bar> < pow2 1023 \<Longrightarrow> \<not> float_overflow (nearest_float x)"
proof -
  assume "\<bar>x\<bar> < pow2 1023"
  then have "\<bar>nearest_float x\<bar> \<le> pow2 1023" by (rule nearest_float_bound) simp
  moreover have "pow2 1023 < pow2 1024" by simp
  ultimately show ?thesis by (simp add: float_overflow_def)
qed

section \<open>The generator: lemmas\<close>

lemma yields_append: "yields (xs @ ys) = yields xs @ yields ys"
  by (induction xs rule: yields.induct) auto

lemma units_append: "units (xs @ ys) = units xs @ units ys"
  by (induction xs rule: units.induct) auto

lemma audio_units_append: "audio_units (us @ vs) = audio_units us @ audio_units vs"
  by (induction us rule: audio_units.induct) auto

lemma counts_from_append:
  "counts_from i (xs @ ys) = (counts_from i xs \<and> counts_from (i + int (length xs)) ys)"
  by (induction xs arbitrary: i) (auto simp: algebra_simps)

lemma counts_from_nth:
  "counts_from i ys \<Longrightarrow> k < length ys \<Longrightarrow> element_index (ys ! k) = i + int k"
proof (induction ys arbitrary: i k)
  case Nil
  then show ?case by simp
next
  case (Cons y ys)
  show ?case
  proof (cases k)
    case 0
    with Cons.prems show ?thesis by simp
  next
    case (Suc j)
    with Cons.prems have "counts_from (i + 1) ys" "j < length ys" by simp_all
    from Cons.IH[OF this] Suc show ?thesis by simp
  qed
qed

lemma counts_from_map:
  "counts_from i ys \<Longrightarrow> map element_index ys = map (\<lambda>k. i + int k) [0..<length ys]"
  by (rule nth_equalityI) (simp_all add: counts_from_nth)

lemma spec_attached_audio_append:
  "spec_attached_audio (us @ vs) acc =
     spec_attached_audio us acc @ spec_attached_audio vs (spec_pending_audio us acc)"
  by (induction us acc rule: spec_attached_audio.induct) auto

lemma spec_pending_audio_append:
  "spec_pending_audio (us @ vs) acc = spec_pending_audio vs (spec_pending_audio us acc)"
  by (induction us acc rule: spec_pending_audio.induct) auto

lemma spec_attached_audio_concat:
  "concat (spec_attached_audio us acc) @ spec_pending_audio us acc = acc @ audio_units us"
  by (induction us acc rule: spec_attached_audio.induct) auto

text \<open>The frame loop: the indices count on from \<open>i\<close>, and the audio goes where the
  spec's rule puts it.\<close>

lemma frame_loop_counts:
  "frame_loop pt cn fs i a = (evs, i', a') \<Longrightarrow>
     counts_from i (yields evs) \<and> i' = i + int (length (yields evs))"
proof (induction fs arbitrary: i a evs i' a')
  case Nil
  then show ?case by simp
next
  case (Cons f fs)
  show ?case
  proof (cases pt)
    case Video
    obtain revs ri ra where r: "frame_loop pt cn fs (i + 1) [] = (revs, ri, ra)"
      by (metis prod_cases3)
    from Cons.IH[OF r] have rc:
      "counts_from (i + 1) (yields revs)" "ri = i + 1 + int (length (yields revs))"
      by simp_all
    from Cons.prems Video r have "evs = Yield (f, i, (a, cn)) # revs" "i' = ri" by auto
    with rc show ?thesis by (simp add: element_index_def)
  next
    case Audio
    with Cons.prems have "frame_loop pt cn fs i (a @ [f]) = (evs, i', a')" by simp
    from Cons.IH[OF this] show ?thesis .
  qed
qed

lemma frame_loop_audio:
  "frame_loop pt cn fs i a = (evs, i', a') \<Longrightarrow>
     map element_audio (yields evs) = spec_attached_audio (map (Pair pt) fs) a
     \<and> a' = spec_pending_audio (map (Pair pt) fs) a \<and> units evs = []
     \<and> Closed \<notin> set evs \<and> Opened \<notin> set evs"
proof (induction fs arbitrary: i a evs i' a')
  case Nil
  then show ?case by simp
next
  case (Cons f fs)
  show ?case
  proof (cases pt)
    case Video
    obtain revs ri ra where r: "frame_loop pt cn fs (i + 1) [] = (revs, ri, ra)"
      by (metis prod_cases3)
    note rc = Cons.IH[OF r]
    from Cons.prems Video r have "evs = Yield (f, i, (a, cn)) # revs" "a' = ra" by auto
    with rc Video show ?thesis by (simp add: element_audio_def)
  next
    case Audio
    with Cons.prems have "frame_loop pt cn fs i (a @ [f]) = (evs, i', a')" by simp
    from Cons.IH[OF this] Audio show ?thesis by simp
  qed
qed

lemma frame_loop_audio_index: "frame_loop Audio cn fs i a = (evs, i', a') \<Longrightarrow> i' = i"
  by (induction fs arbitrary: a) auto

lemma frame_loop_short:
  "length fs \<le> 1 \<Longrightarrow> frame_loop pt cn fs i a = (evs, i', a') \<Longrightarrow> i' \<le> i + 1"
  by (cases fs; cases pt) (auto split: prod.splits)

text \<open>The body of the packet loop.\<close>

lemma loop_body_counts:
  "loop_body ul L cn p i a = (evs, ctl, i', a') \<Longrightarrow>
     counts_from i (yields evs) \<and> i' = i + int (length (yields evs))"
  by (auto simp: loop_body_def split: if_splits sum.splits prod.splits dest: frame_loop_counts)

lemma loop_body_audio:
  "loop_body ul L cn p i a = (evs, ctl, i', a') \<Longrightarrow>
     map element_audio (yields evs) = spec_attached_audio (units evs) a
     \<and> a' = spec_pending_audio (units evs) a \<and> Closed \<notin> set evs \<and> Opened \<notin> set evs"
  by (auto simp: loop_body_def split: if_splits sum.splits prod.splits dest!: frame_loop_audio)

lemma loop_body_limit:
  "loop_body True L cn p i a =
     (if dts p \<noteq> None \<and> i \<ge> L then ([], Stop, i, a) else loop_body False L' cn p i a)"
  by (simp add: loop_body_def)

text \<open>The packet loop.\<close>

lemma demux_loop_counts:
  "demux_loop ul L cn ps i a = (evs, i', a') \<Longrightarrow>
     counts_from i (yields evs) \<and> i' = i + int (length (yields evs))"
proof (induction ul L cn ps i a arbitrary: evs i' a' rule: demux_loop.induct)
  case (1 ul L cn i a)
  then show ?case by simp
next
  case (2 ul L cn e rest i a)
  then show ?case by auto
next
  case (3 ul L cn p rest i a)
  obtain bevs ctl bi ba where b: "loop_body ul L cn p i a = (bevs, ctl, bi, ba)"
    by (metis prod_cases4)
  note bc = loop_body_counts[OF b]
  show ?case
  proof (cases ctl)
    case Next
    obtain revs ri ra where r: "demux_loop ul L cn rest bi ba = (revs, ri, ra)"
      by (metis prod_cases3)
    from "3.IH"[OF b[symmetric] refl Next refl r] have rc:
      "counts_from bi (yields revs) \<and> ri = bi + int (length (yields revs))" by simp
    from "3.prems" b Next r have "evs = Demuxed # bevs @ revs" "i' = ri" by auto
    with bc rc show ?thesis by (simp add: yields_append counts_from_append)
  next
    case Stop
    with "3.prems" b have "evs = Demuxed # bevs" "i' = bi" by auto
    with bc show ?thesis by simp
  qed
qed

lemma demux_loop_audio:
  "demux_loop ul L cn ps i a = (evs, i', a') \<Longrightarrow>
     map element_audio (yields evs) = spec_attached_audio (units evs) a
     \<and> a' = spec_pending_audio (units evs) a \<and> Closed \<notin> set evs \<and> Opened \<notin> set evs"
proof (induction ul L cn ps i a arbitrary: evs i' a' rule: demux_loop.induct)
  case (1 ul L cn i a)
  then show ?case by simp
next
  case (2 ul L cn e rest i a)
  then show ?case by auto
next
  case (3 ul L cn p rest i a)
  obtain bevs ctl bi ba where b: "loop_body ul L cn p i a = (bevs, ctl, bi, ba)"
    by (metis prod_cases4)
  note bc = loop_body_audio[OF b]
  show ?case
  proof (cases ctl)
    case Next
    obtain revs ri ra where r: "demux_loop ul L cn rest bi ba = (revs, ri, ra)"
      by (metis prod_cases3)
    note rc = "3.IH"[OF b[symmetric] refl Next refl r]
    from "3.prems" b Next r have "evs = Demuxed # bevs @ revs" "a' = ra" by auto
    with bc rc show ?thesis
      by (simp add: yields_append units_append spec_attached_audio_append
          spec_pending_audio_append)
  next
    case Stop
    with "3.prems" b have "evs = Demuxed # bevs" "a' = ba" by auto
    with bc show ?thesis by simp
  qed
qed

lemma demux_loop_units:
  "units (fst (demux_loop False L cn ps i a)) = container_units ps"
proof (induction ps arbitrary: i a)
  case Nil
  then show ?case by simp
next
  case (Cons x ps)
  show ?case
  proof (cases x)
    case (Inl e)
    then show ?thesis by simp
  next
    case (Inr p)
    obtain bevs ctl bi ba where b: "loop_body False L cn p i a = (bevs, ctl, bi, ba)"
      by (metis prod_cases4)
    show ?thesis
    proof (cases "dts p = None")
      case True
      with b have "bevs = []" "ctl = Next" by (simp_all add: loop_body_def)
      with Inr b True Cons.IH[of bi ba] show ?thesis
        by (auto split: prod.splits)
    next
      case False
      show ?thesis
      proof (cases "decode p")
        case (Inl e)
        with False b have "bevs = [Raise e]" "ctl = Stop" by (auto simp: loop_body_def)
        with Inr b False Inl show ?thesis by auto
      next
        case fs: (Inr frames)
        obtain fevs fi fa where f: "frame_loop (packet_type p) cn frames i a = (fevs, fi, fa)"
          by (metis prod_cases3)
        with False b fs have "bevs = Decoded (packet_type p) frames # fevs" "ctl = Next"
          by (auto simp: loop_body_def)
        moreover from frame_loop_audio[OF f] have "units fevs = []" by simp
        ultimately show ?thesis
          using Inr b False fs Cons.IH[of bi ba]
          by (auto simp: units_append split: prod.splits)
      qed
    qed
  qed
qed

lemma demux_loop_skip:
  "dts p = None \<Longrightarrow>
     yields (fst (demux_loop ul L cn (Inr p # ps) i a)) = yields (fst (demux_loop ul L cn ps i a))
     \<and> snd (demux_loop ul L cn (Inr p # ps) i a) = snd (demux_loop ul L cn ps i a)"
  by (simp add: loop_body_def split: prod.splits)

lemma demux_loop_filter:
  "yields (fst (demux_loop ul L cn (filter has_dts ps) i a))
     = yields (fst (demux_loop ul L cn ps i a))
   \<and> snd (demux_loop ul L cn (filter has_dts ps) i a) = snd (demux_loop ul L cn ps i a)"
proof (induction ps arbitrary: i a)
  case Nil
  then show ?case by simp
next
  case (Cons x ps)
  show ?case
  proof (cases x)
    case (Inl e)
    then show ?thesis by (simp add: has_dts_def)
  next
    case (Inr p)
    show ?thesis
    proof (cases "dts p = None")
      case True
      with Inr have "filter has_dts (x # ps) = filter has_dts ps"
        by (simp add: has_dts_def)
      with Cons.IH[of i a] demux_loop_skip[OF True, of ul L cn ps i a] Inr
      show ?thesis by simp
    next
      case False
      with Inr have f: "filter has_dts (x # ps) = Inr p # filter has_dts ps"
        by (simp add: has_dts_def)
      obtain bevs ctl bi ba where b: "loop_body ul L cn p i a = (bevs, ctl, bi, ba)"
        by (metis prod_cases4)
      show ?thesis
      proof (cases ctl)
        case Next
        with Inr f b Cons.IH[of bi ba] show ?thesis
          by (auto simp: yields_append split: prod.splits)
      next
        case Stop
        with Inr f b show ?thesis by simp
      qed
    qed
  qed
qed

lemma demux_loop_prefix:
  "prefix (yields (fst (demux_loop True L cn ps i a)))
     (yields (fst (demux_loop False L' cn ps i a)))"
proof (induction ps arbitrary: i a)
  case Nil
  then show ?case by simp
next
  case (Cons x ps)
  show ?case
  proof (cases x)
    case (Inl e)
    then show ?thesis by simp
  next
    case (Inr p)
    show ?thesis
    proof (cases "dts p \<noteq> None \<and> i \<ge> L")
      case True
      then have "loop_body True L cn p i a = ([], Stop, i, a)"
        by (simp add: loop_body_def)
      with Inr show ?thesis by simp
    next
      case False
      then have eq: "loop_body True L cn p i a = loop_body False L' cn p i a"
        using loop_body_limit[of L cn p i a L'] by auto
      obtain bevs ctl bi ba where b: "loop_body False L' cn p i a = (bevs, ctl, bi, ba)"
        by (metis prod_cases4)
      show ?thesis
      proof (cases ctl)
        case Next
        with Inr eq b Cons.IH[of bi ba] show ?thesis
          by (auto simp: yields_append split: prod.splits)
      next
        case Stop
        with Inr eq b show ?thesis by simp
      qed
    qed
  qed
qed

lemma demux_loop_limit:
  "one_frame_per_video_packet ps \<Longrightarrow> demux_loop True L cn ps i a = (evs, i', a') \<Longrightarrow>
     i \<le> L \<Longrightarrow> i' \<le> L"
proof (induction ps arbitrary: i a evs i' a')
  case Nil
  then show ?case by simp
next
  case (Cons x ps)
  show ?case
  proof (cases x)
    case (Inl e)
    with Cons.prems show ?thesis by simp
  next
    case (Inr p)
    obtain bevs ctl bi ba where b: "loop_body True L cn p i a = (bevs, ctl, bi, ba)"
      by (metis prod_cases4)
    have bi: "bi \<le> L"
    proof (cases "dts p = None \<or> i \<ge> L")
      case True
      with b Cons.prems(3) show ?thesis by (auto simp: loop_body_def split: if_splits)
    next
      case False
      then have lt: "i < L" and d: "dts p \<noteq> None" by auto
      show ?thesis
      proof (cases "decode p")
        case (Inl e)
        with b d lt show ?thesis by (simp add: loop_body_def)
      next
        case (Inr fs)
        obtain fevs fi fa where f: "frame_loop (packet_type p) cn fs i a = (fevs, fi, fa)"
          by (metis prod_cases3)
        from b d lt Inr f have "bi = fi" by (simp add: loop_body_def)
        moreover from Cons.prems(1) \<open>x = Inr p\<close> Inr
        have "packet_type p = Audio \<or> length fs \<le> 1"
          by (simp add: one_frame_per_video_packet_def)
        then have "fi \<le> i + 1"
          using f frame_loop_audio_index[of cn fs i a fevs fi fa]
            frame_loop_short[of fs _ cn i a fevs fi fa]
          by auto
        ultimately show ?thesis using lt by simp
      qed
    qed
    show ?thesis
    proof (cases ctl)
      case Next
      obtain revs ri ra where r: "demux_loop True L cn ps bi ba = (revs, ri, ra)"
        by (metis prod_cases3)
      from Cons.prems(1) have "one_frame_per_video_packet ps"
        by (simp add: one_frame_per_video_packet_def)
      from Cons.IH[OF this r bi] have "ri \<le> L" .
      moreover from Cons.prems(2) Inr b Next r have "i' = ri" by simp
      ultimately show ?thesis by simp
    next
      case Stop
      with Cons.prems(2) Inr b have "i' = bi" by simp
      with bi show ?thesis by simp
    qed
  qed
qed

section \<open>Setting up: lemmas\<close>

lemma py_truediv_nonneg:
  "py_truediv a b = Inr x \<Longrightarrow> 0 \<le> of_int a / (of_int b :: rat) \<Longrightarrow> 0 \<le> x"
  using nearest_float_nonneg[of "of_int a / of_int b"]
  by (auto simp: py_truediv_def Let_def split: if_splits)




lemma converted_eq:
  "converted r =
     (if float_overflow (nearest_float r) then Inl OverflowError
      else Inr (py_round2 (Float (nearest_float r))))"
  by (simp add: converted_def py_truediv_def quotient_of_ratio quotient_of_denominator)

text \<open>The division of a 64-bit duration by \<open>1000000\<close>, and the conversion of a
  ratio below \<open>2 ^ 1023\<close>, do not overflow.\<close>

lemma duration_seconds_defined:
  assumes "\<bar>d\<bar> < 2 ^ 63"
  shows "py_truediv d 1000000 = Inr (nearest_float (of_int d / 1000000))"
proof -
  from assms have "\<bar>(of_int d :: rat)\<bar> < 2 ^ 63"
    by (metis of_int_abs of_int_less_iff of_int_numeral of_int_power)
  then have "\<bar>(of_int d / 1000000 :: rat)\<bar> < 2 ^ 63" by simp
  also have "(2 :: rat) ^ 63 < pow2 1023" by simp
  finally have "\<not> float_overflow (nearest_float (of_int d / 1000000))"
    by (rule nearest_float_no_overflow)
  then show ?thesis by (simp add: py_truediv_def)
qed

lemma converted_defined:
  "\<bar>r\<bar> < pow2 1023 \<Longrightarrow> converted r = Inr (py_round2 (Float (nearest_float r)))"
  by (simp add: converted_eq nearest_float_no_overflow)

text \<open>Values of the float operations, computed.\<close>

lemma nearest_float_exponent_0: "nearest_float (- (3 / 2)) = - (3 / 2)"
  by (subst nearest_float_exponent[of 0]; simp)

lemma nearest_float_exponent_1:
  "nearest_float (107 / 40) = 6023564501608038 / 2251799813685248"
  "nearest_float (267 / 100) = 1503076375634903 / 562949953421312"
  by (subst nearest_float_exponent[of 1]; simp)+

lemma nearest_float_exponent_3: "nearest_float 10 = 10"
  by (subst nearest_float_exponent[of 3]; simp)

lemma nearest_float_exponent_4:
  "nearest_float 24 = 24"
  "nearest_float 25 = 25"
  "nearest_float (- 25) = - 25"
  "nearest_float (30000 / 1001) = 1054476685978981 / 35184372088832"
  "nearest_float (2997 / 100) = 1054475631502295 / 35184372088832"
  by (subst nearest_float_exponent[of 4]; simp)+

lemma nearest_float_exponent_7:
  "nearest_float 240 = 240"
  "nearest_float 250 = 250"
  by (subst nearest_float_exponent[of 7]; simp)+

lemma nearest_float_exponent_minus_10:
  "nearest_float (1 / 1000) = 1152921504606847 / 1152921504606846976"
  by (subst nearest_float_exponent[of "- 10"]; simp)

lemmas nearest_float_values =
  nearest_float_exponent_0 nearest_float_exponent_1 nearest_float_exponent_3 nearest_float_exponent_4
  nearest_float_exponent_7 nearest_float_exponent_minus_10

lemma converted_values:
  "converted 25 = Inr (Float 25)"
  "converted 0 = Inr (Float 0)"
  "converted (- 25) = Inr (Float (- 25))"
  "converted (1 / 1000) = Inr (Float 0)"
  "converted (30000 / 1001) = Inr (Float (1054475631502295 / 35184372088832))"
  "converted (107 / 40) = Inr (Float (1503076375634903 / 562949953421312))"
  by (simp_all add: converted_eq nearest_float_values float_overflow_def py_round2_def)
     (simp_all add: nearest_float_def)

lemma floor_ceiling_values:
  "\<lfloor>- (3 / 2) :: rat\<rfloor> = - 2"
  "\<lceil>- (3 / 2) :: rat\<rceil> = - 1"
  by (rule floor_unique; simp) (rule ceiling_unique; simp)

lemma float_operation_values:
  "py_truediv 10000000 1000000 = Inr 10"
  "float_mul 10 24 = Some 240"
  "float_mul 10 25 = Some 250"
  "py_truediv (- 1500000) 1000000 = Inr (- (3 / 2))"
  "float_mul (- (3 / 2)) 1 = Some (- (3 / 2))"
  by (simp_all add: py_truediv_def float_mul_def nearest_float_values float_overflow_def)

lemma py_float_nonneg: "py_float v = Inr r \<Longrightarrow> 0 \<le> num_value v \<Longrightarrow> 0 \<le> r"
proof (cases v)
  case (Fraction q)
  assume "py_float v = Inr r" and "0 \<le> num_value v"
  with Fraction py_truediv_nonneg[of "fst (quotient_of q)" "snd (quotient_of q)" r]
  show ?thesis by (simp add: py_float_def num_value_def quotient_of_ratio)
next
  case (Float x)
  assume "py_float v = Inr r" and "0 \<le> num_value v"
  with Float show ?thesis by (simp add: py_float_def num_value_def)
qed

text \<open>The frame rate, by the priority of the candidates.\<close>

lemma resolve_fps_cases:
  "resolve_fps s =
     (case first_usable [framerate (codec_context s), rate (codec_context s)] of
        Some f \<Rightarrow> Inr (py_round2 (Fraction f))
      | None \<Rightarrow>
          (case first_usable [average_rate s, guessed_rate s] of
             Some r \<Rightarrow> converted r
           | None \<Rightarrow>
               (case base_rate s of
                  Some r \<Rightarrow> converted r
                | None \<Rightarrow>
                    Inl (if rate (codec_context s) = None then RuntimeError
                         else AttributeError))))"
  by (cases "framerate (codec_context s)"; cases "rate (codec_context s)";
      cases "average_rate s"; cases "guessed_rate s"; cases "base_rate s")
     (simp_all add: resolve_fps_def py_or_def truthy_def converted_def Let_def
        map_sum.compositionality comp_def id_def)



text \<open>The node, when every step of the preparation succeeds, and when one fails.\<close>

lemma node_returns:
  assumes "av_open files p = Inr c" and "video c = s # ss"
    and "resolve_fps s = Inr fps"
    and "estimate_frame_count (encoded_frame_count (codec_context s)) (duration c) fps = Inr n"
    and "audio c = a # as"
  shows "load_video_node files p use_limit limit =
           ([Opened],
            Inr (\<lparr>iter_supplier = iterator use_limit limit (codec_name a) (demux c),
                  expected_length = (if use_limit then min n limit else n)\<rparr>,
                 directory p, file_name p, fps))"
  using assms
  by (simp add: load_video_node_def split_file_path_def prepare_def item0_def)

lemma node_raises:
  "av_open files p = Inr c \<Longrightarrow> prepare c use_limit limit = Inl e \<Longrightarrow>
     load_video_node files p use_limit limit = ([Opened, Raise e], Inl e)"
  by (simp add: load_video_node_def split_file_path_def)

lemma node_cannot_open:
  "av_open files p = Inl e \<Longrightarrow>
     load_video_node files p use_limit limit = ([Raise e], Inl e)"
  by (simp add: load_video_node_def split_file_path_def)

lemma node_prepared:
  "av_open files p = Inr c \<Longrightarrow> prepare c use_limit limit = Inr (fps, n, a) \<Longrightarrow>
     load_video_node files p use_limit limit =
       ([Opened],
        Inr (\<lparr>iter_supplier = iterator use_limit limit (codec_name a) (demux c),
              expected_length = n\<rparr>,
             directory p, file_name p, fps))"
  by (simp add: load_video_node_def split_file_path_def)

lemma consumed_subset: "set (consumed n evs) \<subseteq> set evs"
  by (induction n evs rule: consumed.induct) auto

lemma iterator_events:
  "Closed \<notin> set (iterator use_limit limit cn ps) \<and> Opened \<notin> set (iterator use_limit limit cn ps)"
proof -
  obtain evs i a where r: "demux_loop use_limit limit cn ps 0 [] = (evs, i, a)"
    by (metis prod_cases3)
  from demux_loop_audio[OF r] r show ?thesis by (simp add: iterator_def)
qed

section \<open>The generator: the claims\<close>

text \<open>C8. The indices of the elements a run yields are \<open>0, 1, 2, ...\<close> in the order of
  the yields, whatever the packets are and however the run ends, and the value of
  \<^verbatim>\<open>index\<close> at the end of the run is the number of elements yielded: the counter
  starts at 0 and moves by one at each yield and nowhere else.\<close>

theorem index_sequence:
  "map element_index (yields (iterator use_limit limit codec packets))
     = map int [0..<length (yields (iterator use_limit limit codec packets))]
   \<and> fst (snd (demux_loop use_limit limit codec packets 0 []))
     = int (length (yields (iterator use_limit limit codec packets)))"
proof -
  obtain evs i a where r: "demux_loop use_limit limit codec packets 0 [] = (evs, i, a)"
    by (metis prod_cases3)
  from demux_loop_counts[OF r] counts_from_map[of 0 "yields evs"] r
  show ?thesis by (simp add: iterator_def)
qed

text \<open>C9. A packet without a decode timestamp is skipped: the body of the loop yields
  nothing, decodes nothing, goes on to the next packet and leaves \<^verbatim>\<open>index\<close> and
  \<^verbatim>\<open>audio_arr\<close> as they were; so the run over the packet and the rest yields what the
  run over the rest yields, and ends in the same state. Taking every such packet out of
  what the demuxer delivers changes neither the elements nor the state at the end.\<close>

theorem packet_without_dts_skipped:
  "(dts packet = None \<longrightarrow>
      loop_body use_limit limit codec packet index audio_arr = ([], Next, index, audio_arr)
      \<and> yields (fst (demux_loop use_limit limit codec (Inr packet # rest) index audio_arr))
        = yields (fst (demux_loop use_limit limit codec rest index audio_arr))
      \<and> snd (demux_loop use_limit limit codec (Inr packet # rest) index audio_arr)
        = snd (demux_loop use_limit limit codec rest index audio_arr))
   \<and> yields (fst (demux_loop use_limit limit codec (filter has_dts packets) index audio_arr))
     = yields (fst (demux_loop use_limit limit codec packets index audio_arr))
   \<and> snd (demux_loop use_limit limit codec (filter has_dts packets) index audio_arr)
     = snd (demux_loop use_limit limit codec packets index audio_arr)"
  using demux_loop_skip[of packet use_limit limit codec rest index audio_arr]
    demux_loop_filter[of use_limit limit codec packets index audio_arr]
  by (simp add: loop_body_def)

theorem packet_without_dts_skipped_witness:
  "dts \<lparr>dts = None, packet_type = Audio, decode = Inr [5 :: nat]\<rparr> = None
   \<and> loop_body True 1 ''aac'' \<lparr>dts = None, packet_type = Audio, decode = Inr [5 :: nat]\<rparr> 3 [4]
     = ([], Next, 3, [4])
   \<and> yields (fst (demux_loop True 1 ''aac''
        [Inr \<lparr>dts = None, packet_type = Audio, decode = Inr [5 :: nat]\<rparr>,
         Inr \<lparr>dts = Some 0, packet_type = Video, decode = Inr [6]\<rparr>] 0 [4]))
     = [(6, 0, ([4], ''aac''))]"
  using packet_without_dts_skipped
    [of "\<lparr>dts = None, packet_type = Audio, decode = Inr [5 :: nat]\<rparr>" True 1 "''aac''" 3 "[4]"]
  by (simp add: loop_body_def)

text \<open>C7. A run with a limit attaches audio as the run without a limit does: the
  elements of the limited run are the first elements of the unlimited run, so wherever
  both runs yield an element with the same index, the attached audio is the same.\<close>

theorem limit_keeps_audio:
  "prefix (yields (iterator True limit codec packets)) (yields (iterator False limit' codec packets))
   \<and> (\<forall>y \<in> set (yields (iterator True limit codec packets)).
        \<forall>y' \<in> set (yields (iterator False limit' codec packets)).
          element_index y = element_index y' \<longrightarrow> element_audio y = element_audio y')"
proof -
  let ?yl = "yields (iterator True limit codec packets)"
  let ?yu = "yields (iterator False limit' codec packets)"
  have p: "prefix ?yl ?yu"
    unfolding iterator_def by (rule demux_loop_prefix)
  obtain evs i a where r: "demux_loop False limit' codec packets 0 [] = (evs, i, a)"
    by (metis prod_cases3)
  from demux_loop_counts[OF r] r have cu: "counts_from 0 ?yu"
    by (simp add: iterator_def)
  have "element_audio y = element_audio y'"
    if y: "y \<in> set ?yl" and y': "y' \<in> set ?yu" and e: "element_index y = element_index y'"
    for y y'
  proof -
    from y obtain k where k: "k < length ?yl" "?yl ! k = y"
      by (auto simp: in_set_conv_nth)
    from y' obtain k' where k': "k' < length ?yu" "?yu ! k' = y'"
      by (auto simp: in_set_conv_nth)
    from p k have ku: "k < length ?yu" "?yu ! k = y"
      by (auto simp: prefix_def nth_append)
    from counts_from_nth[OF cu ku(1)] counts_from_nth[OF cu k'(1)] ku k' e
    have "k = k'" by simp
    with ku k' show ?thesis by simp
  qed
  with p show ?thesis by blast
qed

theorem limit_keeps_audio_witness:
  "yields (iterator True 1 ''aac''
     [Inr \<lparr>dts = Some 0, packet_type = Audio, decode = Inr [7 :: nat]\<rparr>,
      Inr \<lparr>dts = Some 0, packet_type = Video, decode = Inr [1]\<rparr>,
      Inr \<lparr>dts = Some 1, packet_type = Audio, decode = Inr [8]\<rparr>,
      Inr \<lparr>dts = Some 1, packet_type = Video, decode = Inr [2]\<rparr>])
     = [(1, 0, ([7], ''aac''))]
   \<and> yields (iterator False 1 ''aac''
     [Inr \<lparr>dts = Some 0, packet_type = Audio, decode = Inr [7 :: nat]\<rparr>,
      Inr \<lparr>dts = Some 0, packet_type = Video, decode = Inr [1]\<rparr>,
      Inr \<lparr>dts = Some 1, packet_type = Audio, decode = Inr [8]\<rparr>,
      Inr \<lparr>dts = Some 1, packet_type = Video, decode = Inr [2]\<rparr>])
     = [(1, 0, ([7], ''aac'')), (2, 1, ([8], ''aac''))]
   \<and> element_index (1 :: nat, 0, ([7 :: nat], ''aac'')) = 0
   \<and> element_audio (1 :: nat, 0, ([7 :: nat], ''aac'')) = [7]"
  using limit_keeps_audio
    [of 1 "''aac''"
      "[Inr \<lparr>dts = Some 0, packet_type = Audio, decode = Inr [7 :: nat]\<rparr>,
        Inr \<lparr>dts = Some 0, packet_type = Video, decode = Inr [1]\<rparr>,
        Inr \<lparr>dts = Some 1, packet_type = Audio, decode = Inr [8]\<rparr>,
        Inr \<lparr>dts = Some 1, packet_type = Video, decode = Inr [2]\<rparr>]" 1]
  by (simp add: iterator_def loop_body_def element_index_def element_audio_def)

text \<open>C1, as the code has it. The audio lists attached to the elements, one after the
  other, followed by what is left in \<^verbatim>\<open>audio_arr\<close> when the generator ends, are the
  audio frames the run decoded, in order: nothing is duplicated or reordered, and the
  audio decoded after the last element is attached to no element. Each element's audio
  is the audio decoded since the video frame before it, as the spec's rule says. A run
  without a limit decodes every packet of the container that carries a decode
  timestamp, up to the first error.\<close>

theorem attached_audio:
  "concat (map element_audio (yields (iterator use_limit limit codec packets)))
       @ leftover_audio use_limit limit codec packets
     = decoded_audio (iterator use_limit limit codec packets)
   \<and> map element_audio (yields (iterator use_limit limit codec packets))
     = spec_attached_audio (units (iterator use_limit limit codec packets)) []
   \<and> leftover_audio use_limit limit codec packets
     = spec_pending_audio (units (iterator use_limit limit codec packets)) []
   \<and> units (iterator False limit codec packets) = container_units packets"
proof -
  obtain evs i a where r: "demux_loop use_limit limit codec packets 0 [] = (evs, i, a)"
    by (metis prod_cases3)
  from demux_loop_audio[OF r] r spec_attached_audio_concat[of "units evs" "[]"]
  show ?thesis
    by (simp add: iterator_def leftover_audio_def decoded_audio_def demux_loop_units)
qed

text \<open>C1 as stated fails: the audio packet after the last video packet is decoded, and
  its frame is attached to no element.\<close>

theorem trailing_audio_dropped:
  "decoded_audio (iterator False 10 ''aac''
     [Inr \<lparr>dts = Some 0, packet_type = Video, decode = Inr [1 :: nat]\<rparr>,
      Inr \<lparr>dts = Some 0, packet_type = Audio, decode = Inr [2]\<rparr>]) = [2]
   \<and> concat (map element_audio (yields (iterator False 10 ''aac''
     [Inr \<lparr>dts = Some 0, packet_type = Video, decode = Inr [1 :: nat]\<rparr>,
      Inr \<lparr>dts = Some 0, packet_type = Audio, decode = Inr [2]\<rparr>]))) = []"
  by (simp add: iterator_def loop_body_def decoded_audio_def element_audio_def)

text \<open>C3. With a limit of 1, a video packet that decodes to two frames yields two
  elements, with the indices 0 and 1: the limit is tested once for each packet, not
  for each frame.\<close>

theorem limit_exceeded:
  "yields (iterator True 1 ''aac''
     [Inr \<lparr>dts = Some 0, packet_type = Video, decode = Inr [1 :: nat, 2]\<rparr>])
     = [(1, 0, ([], ''aac'')), (2, 1, ([], ''aac''))]"
  by (simp add: iterator_def loop_body_def)

text \<open>When no video packet decodes to more than one frame, a run with a limit
  \<open>L \<ge> 0\<close> yields at most \<open>L\<close> elements, each with an index below \<open>L\<close>.\<close>

lemma limit_respected:
  assumes "one_frame_per_video_packet packets" and "0 \<le> limit"
  shows "int (length (yields (iterator True limit codec packets))) \<le> limit"
    and "\<forall>y \<in> set (yields (iterator True limit codec packets)). element_index y < limit"
proof -
  let ?ys = "yields (iterator True limit codec packets)"
  obtain evs i a where r: "demux_loop True limit codec packets 0 [] = (evs, i, a)"
    by (metis prod_cases3)
  from demux_loop_limit[OF assms(1) r assms(2)] demux_loop_counts[OF r] r
  have len: "int (length ?ys) \<le> limit" and c: "counts_from 0 ?ys"
    by (simp_all add: iterator_def)
  show "int (length ?ys) \<le> limit" by (rule len)
  show "\<forall>y \<in> set ?ys. element_index y < limit"
  proof
    fix y assume "y \<in> set ?ys"
    then obtain k where k: "k < length ?ys" "?ys ! k = y"
      by (auto simp: in_set_conv_nth)
    from counts_from_nth[OF c k(1)] k len show "element_index y < limit" by simp
  qed
qed

section \<open>Setting up: the claims\<close>

text \<open>C4, as the code has it. The candidates are tried in the order of the claim, and
  the first that is present and not zero wins, a zero fraction being passed over as an
  absent one is; the base rate, the last, is taken as soon as it is present. A winning
  rate of the codec context stays a \<^verbatim>\<open>Fraction\<close> and is rounded to two decimals
  exactly; a winning rate of the stream is converted by true division of its numerator
  by its denominator and then rounded to two decimals. With no winner the node raises.
  In particular, a base rate alone gives the base rate converted and rounded, and an
  average rate that is not zero wins over a base rate.\<close>

theorem resolve_fps_priority:
  "resolve_fps s =
     (case first_usable [framerate (codec_context s), rate (codec_context s)] of
        Some f \<Rightarrow> Inr (py_round2 (Fraction f))
      | None \<Rightarrow>
          (case first_usable [average_rate s, guessed_rate s] of
             Some r \<Rightarrow> converted r
           | None \<Rightarrow>
               (case base_rate s of
                  Some r \<Rightarrow> converted r
                | None \<Rightarrow>
                    Inl (if rate (codec_context s) = None then RuntimeError
                         else AttributeError))))
   \<and> resolve_fps
        \<lparr>codec_context = \<lparr>framerate = None, rate = None, encoded_frame_count = n\<rparr>,
         average_rate = None, guessed_rate = None, base_rate = Some b\<rparr>
       = converted b
   \<and> resolve_fps
        \<lparr>codec_context = \<lparr>framerate = None, rate = None, encoded_frame_count = n\<rparr>,
         average_rate = Some a, guessed_rate = None, base_rate = Some b\<rparr>
       = (if a = 0 then converted b else converted a)"
  by (simp add: resolve_fps_cases truthy_def)

text \<open>C4 as stated fails. An average rate that is present and zero does not win over
  the base rate: the result is the base rate \<open>25.0\<close>, not the average rate \<open>0.0\<close>.
  And a frame rate of the codec context is not converted by true division: \<open>107 / 40\<close>
  is rounded as a fraction, to \<open>67 / 25 = 2.68\<close>, where true division and rounding
  give the float \<open>2.67\<close>.\<close>

theorem zero_average_rate_passed_over:
  "resolve_fps
     \<lparr>codec_context = \<lparr>framerate = None, rate = None, encoded_frame_count = None\<rparr>,
      average_rate = Some 0, guessed_rate = None, base_rate = Some 25\<rparr>
     = Inr (Float 25)
   \<and> converted 0 = Inr (Float 0)
   \<and> resolve_fps
     \<lparr>codec_context = \<lparr>framerate = Some (107 / 40), rate = None, encoded_frame_count = None\<rparr>,
      average_rate = None, guessed_rate = None, base_rate = None\<rparr>
     = Inr (Fraction (67 / 25))
   \<and> converted (107 / 40) = Inr (Float (1503076375634903 / 562949953421312))"
proof -
  have "py_round2 (Fraction (107 / 40)) = Fraction (67 / 25)"
    by (simp add: py_round2_def)
  then show ?thesis by (simp add: resolve_fps_cases truthy_def converted_values)
qed




text \<open>C6, as the code has it. When the division of the duration by \<open>1000000\<close> gives
  the seconds: a frame count of the codec context that is present and not zero is the
  frame count; otherwise the frame count is \<^verbatim>\<open>int\<close> of the float product of the
  seconds and the frame rate, the seconds being the float nearest to the duration
  divided by \<open>1000000\<close>; \<^verbatim>\<open>int\<close> cuts towards zero, which is the floor of the product
  for a duration and a frame rate that are not negative. A duration of 10 seconds and a
  frame rate of \<open>24.0\<close> give 240 frames.\<close>

theorem frame_count_estimate:
  "(py_truediv d 1000000 = Inr seconds \<longrightarrow> m \<noteq> 0 \<longrightarrow>
      estimate_frame_count (Some m) (Some d) fps = Inr m)
   \<and> (py_truediv d 1000000 = Inr seconds \<longrightarrow> py_float fps = Inr r \<longrightarrow>
       float_mul seconds r = Some z \<longrightarrow>
         seconds = nearest_float (of_int d / 1000000) \<and> z = nearest_float (seconds * r)
         \<and> estimate_frame_count None (Some d) fps = Inr (if 0 \<le> z then \<lfloor>z\<rfloor> else \<lceil>z\<rceil>)
         \<and> estimate_frame_count (Some 0) (Some d) fps = Inr (if 0 \<le> z then \<lfloor>z\<rfloor> else \<lceil>z\<rceil>)
         \<and> (0 \<le> d \<longrightarrow> 0 \<le> num_value fps \<longrightarrow>
              estimate_frame_count None (Some d) fps = Inr \<lfloor>z\<rfloor>
              \<and> estimate_frame_count (Some 0) (Some d) fps = Inr \<lfloor>z\<rfloor>))
   \<and> estimate_frame_count None (Some 10000000) (Float 24) = Inr 240
   \<and> estimate_frame_count (Some 0) (Some 10000000) (Float 24) = Inr 240"
proof -
  have count: "estimate_frame_count (Some m) (Some d) fps = Inr m"
    if "py_truediv d 1000000 = Inr seconds" and "m \<noteq> 0"
    using that by (simp add: estimate_frame_count_def)
  have estimate:
    "seconds = nearest_float (of_int d / 1000000) \<and> z = nearest_float (seconds * r)
     \<and> estimate_frame_count None (Some d) fps = Inr (if 0 \<le> z then \<lfloor>z\<rfloor> else \<lceil>z\<rceil>)
     \<and> estimate_frame_count (Some 0) (Some d) fps = Inr (if 0 \<le> z then \<lfloor>z\<rfloor> else \<lceil>z\<rceil>)
     \<and> (0 \<le> d \<longrightarrow> 0 \<le> num_value fps \<longrightarrow>
          estimate_frame_count None (Some d) fps = Inr \<lfloor>z\<rfloor>
          \<and> estimate_frame_count (Some 0) (Some d) fps = Inr \<lfloor>z\<rfloor>)"
    if s: "py_truediv d 1000000 = Inr seconds" and r: "py_float fps = Inr r"
      and z: "float_mul seconds r = Some z"
  proof -
    from s have sec: "seconds = nearest_float (of_int d / 1000000)"
      by (auto simp: py_truediv_def Let_def split: if_splits)
    from z have zz: "z = nearest_float (seconds * r)"
      by (auto simp: float_mul_def Let_def split: if_splits)
    from s r z have int:
      "estimate_frame_count None (Some d) fps = Inr (if 0 \<le> z then \<lfloor>z\<rfloor> else \<lceil>z\<rceil>)"
      "estimate_frame_count (Some 0) (Some d) fps = Inr (if 0 \<le> z then \<lfloor>z\<rfloor> else \<lceil>z\<rceil>)"
      by (simp_all add: estimate_frame_count_def py_int_def)
    have "0 \<le> z" if d: "0 \<le> d" and f: "0 \<le> num_value fps"
    proof -
      from d have "0 \<le> seconds"
        unfolding sec by (intro nearest_float_nonneg) simp
      moreover from py_float_nonneg[OF r f] have "0 \<le> r" .
      ultimately show ?thesis
        unfolding zz by (intro nearest_float_nonneg) simp
    qed
    with sec zz int show ?thesis by simp
  qed
  have example:
    "estimate_frame_count None (Some 10000000) (Float 24) = Inr 240"
    "estimate_frame_count (Some 0) (Some 10000000) (Float 24) = Inr 240"
    by (simp_all add: estimate_frame_count_def float_operation_values py_float_def py_int_def)
  from count estimate example show ?thesis by blast
qed

theorem frame_count_estimate_witness:
  "py_truediv 10000000 1000000 = Inr 10 \<and> (300 :: int) \<noteq> 0
   \<and> estimate_frame_count (Some 300) (Some 10000000) (Float 24) = Inr 300
   \<and> (0 :: int) \<le> 10000000 \<and> 0 \<le> num_value (Float 24)
   \<and> py_float (Float 24) = Inr 24 \<and> float_mul 10 24 = Some 240
   \<and> estimate_frame_count None (Some 10000000) (Float 24) = Inr \<lfloor>240 :: rat\<rfloor>"
  using frame_count_estimate[of 10000000 10 300 "Float 24" 24 240]
  by (simp add: float_operation_values py_float_def num_value_def)

text \<open>C6 as stated fails. For a duration of \<open>- 1.5\<close> seconds and a frame rate of
  \<open>1.0\<close> the frame count is \<open>- 1\<close>, where the floor of the product is \<open>- 2\<close>. And
  for a container without a duration the node raises \<^verbatim>\<open>TypeError\<close>, also when the
  frame count of the codec context is present and not zero.\<close>

theorem frame_count_not_floor:
  "estimate_frame_count None (Some (- 1500000)) (Float 1) = Inr (- 1)
   \<and> py_truediv (- 1500000) 1000000 = Inr (- (3 / 2))
   \<and> float_mul (- (3 / 2)) 1 = Some (- (3 / 2))
   \<and> \<lfloor>- (3 / 2) :: rat\<rfloor> = - 2
   \<and> estimate_frame_count (Some 100) None (Float 24) = Inl TypeError"
  by (simp add: estimate_frame_count_def float_operation_values floor_ceiling_values
      py_float_def py_int_def)

text \<open>C10. A container with a video stream and no audio stream: the node raises while
  it prepares, and returns no iterator; when the frame rate and the frame count are
  found, the exception is the \<^verbatim>\<open>IndexError\<close> of \<^verbatim>\<open>container.streams.audio[0]\<close>,
  otherwise it is the exception of the earlier step.\<close>

theorem no_audio_stream_fails:
  "av_open files p = Inr c \<Longrightarrow> video c = s # ss \<Longrightarrow> audio c = [] \<Longrightarrow>
     (\<exists>e. load_video_node files p use_limit limit = ([Opened, Raise e], Inl e))
     \<and> (resolve_fps s = Inr fps \<longrightarrow>
          estimate_frame_count (encoded_frame_count (codec_context s)) (duration c) fps = Inr n
          \<longrightarrow> load_video_node files p use_limit limit
                = ([Opened, Raise IndexError], Inl IndexError))"
proof -
  assume o: "av_open files p = Inr c" and v: "video c = s # ss" and a: "audio c = []"
  from v a have "\<exists>e. prepare c use_limit limit = Inl e"
    by (simp add: prepare_def item0_def split: sum.splits)
  then have 1: "\<exists>e. load_video_node files p use_limit limit = ([Opened, Raise e], Inl e)"
    using node_raises[OF o] by blast
  have 2: "load_video_node files p use_limit limit
      = ([Opened, Raise IndexError], Inl IndexError)"
    if "resolve_fps s = Inr fps"
      and "estimate_frame_count (encoded_frame_count (codec_context s)) (duration c) fps = Inr n"
  proof -
    from that v a have "prepare c use_limit limit = Inl IndexError"
      by (simp add: prepare_def item0_def)
    from node_raises[OF o this] show ?thesis .
  qed
  from 1 2 show ?thesis by blast
qed

theorem no_audio_stream_fails_witness:
  "load_video_node
     [(\<lparr>directory = ''/v'', file_name = ''a'', extension = ''.mp4''\<rparr>,
       Inr \<lparr>video =
              [\<lparr>codec_context =
                  \<lparr>framerate = None, rate = None, encoded_frame_count = None\<rparr>,
                average_rate = None, guessed_rate = None, base_rate = Some 25\<rparr>],
            audio = [], duration = Some 10000000,
            demux = [Inr \<lparr>dts = Some 0, packet_type = Video, decode = Inr [1 :: nat]\<rparr>]\<rparr>)]
     \<lparr>directory = ''/v'', file_name = ''a'', extension = ''.mp4''\<rparr> False 10
     = ([Opened, Raise IndexError], Inl IndexError)
   \<and> resolve_fps
       \<lparr>codec_context = \<lparr>framerate = None, rate = None, encoded_frame_count = None\<rparr>,
        average_rate = None, guessed_rate = None, base_rate = Some 25\<rparr>
     = Inr (Float 25)
   \<and> estimate_frame_count None (Some 10000000) (Float 25) = Inr 250"
  using no_audio_stream_fails
    [of "[(\<lparr>directory = ''/v'', file_name = ''a'', extension = ''.mp4''\<rparr>,
           Inr \<lparr>video =
                  [\<lparr>codec_context =
                      \<lparr>framerate = None, rate = None, encoded_frame_count = None\<rparr>,
                    average_rate = None, guessed_rate = None, base_rate = Some 25\<rparr>],
                audio = [], duration = Some 10000000,
                demux = [Inr \<lparr>dts = Some 0, packet_type = Video, decode = Inr [1 :: nat]\<rparr>]\<rparr>)]"
      "\<lparr>directory = ''/v'', file_name = ''a'', extension = ''.mp4''\<rparr>"
      "\<lparr>video =
          [\<lparr>codec_context = \<lparr>framerate = None, rate = None, encoded_frame_count = None\<rparr>,
            average_rate = None, guessed_rate = None, base_rate = Some 25\<rparr>],
        audio = [], duration = Some 10000000,
        demux = [Inr \<lparr>dts = Some 0, packet_type = Video, decode = Inr [1 :: nat]\<rparr>]\<rparr>"
      "\<lparr>codec_context = \<lparr>framerate = None, rate = None, encoded_frame_count = None\<rparr>,
        average_rate = None, guessed_rate = None, base_rate = Some 25\<rparr>"
      "[]" False 10 "Float 25" 250]
  by (simp add: av_open_def resolve_fps_cases truthy_def converted_values
      estimate_frame_count_def float_operation_values py_float_def py_int_def)

text \<open>C2, as the code has it. On every way out of a run, the end of the packets, a
  consumer that abandons the generator after any number of elements, or an exception
  of \<^verbatim>\<open>av.open\<close>, of the preparation, of the demuxer or of the decoder, the node has
  opened the container once if \<^verbatim>\<open>av.open\<close> succeeded and not at all otherwise, and it
  has not closed it: the code holds no \<^verbatim>\<open>close\<close>, and an exception is raised with the
  container still open.\<close>

theorem container_never_closed:
  "Closed \<notin> set (run files p use_limit limit taken)
   \<and> count_list (run files p use_limit limit taken) Opened
     = (case av_open files p of Inl e \<Rightarrow> 0 | Inr c \<Rightarrow> 1)"
proof (cases "av_open files p")
  case (Inl e)
  from node_cannot_open[OF this] Inl show ?thesis by (simp add: run_def)
next
  case (Inr c)
  show ?thesis
  proof (cases "prepare c use_limit limit")
    case (Inl e)
    from node_raises[OF Inr this] Inr show ?thesis by (simp add: run_def)
  next
    case prepared: (Inr r)
    obtain fps n a where r: "r = (fps, n, a)" by (metis prod_cases3)
    let ?it = "iterator use_limit limit (codec_name a) (demux c)"
    let ?rest = "case taken of None \<Rightarrow> ?it | Some k \<Rightarrow> consumed k ?it"
    from node_prepared[OF Inr prepared[unfolded r]]
    have run: "run files p use_limit limit taken = Opened # ?rest"
      by (cases taken) (simp_all add: run_def)
    have "set ?rest \<subseteq> set ?it"
      using consumed_subset by (cases taken) auto
    with iterator_events[of use_limit limit "codec_name a" "demux c"]
    have "Closed \<notin> set ?rest" "Opened \<notin> set ?rest" by auto
    then have "Closed \<notin> set ?rest" "count_list ?rest Opened = 0"
      by (simp_all add: count_list_0_iff)
    with run Inr show ?thesis by simp
  qed
qed

text \<open>C2 as stated fails: a run to the end of the packets, and a run that a decoder
  error ends, open the container and never close it.\<close>

theorem container_left_open:
  "run
     [(\<lparr>directory = ''/v'', file_name = ''a'', extension = ''.mp4''\<rparr>,
       Inr \<lparr>video =
              [\<lparr>codec_context =
                  \<lparr>framerate = None, rate = None, encoded_frame_count = None\<rparr>,
                average_rate = None, guessed_rate = None, base_rate = Some 25\<rparr>],
            audio = [\<lparr>codec_name = ''aac''\<rparr>], duration = Some 10000000,
            demux = [Inr \<lparr>dts = Some 0, packet_type = Video, decode = Inr [1 :: nat]\<rparr>]\<rparr>)]
     \<lparr>directory = ''/v'', file_name = ''a'', extension = ''.mp4''\<rparr> False 10 None
     = [Opened, Demuxed, Decoded Video [1], Yield (1, 0, ([], ''aac''))]
   \<and> run
     [(\<lparr>directory = ''/v'', file_name = ''a'', extension = ''.mp4''\<rparr>,
       Inr \<lparr>video =
              [\<lparr>codec_context =
                  \<lparr>framerate = None, rate = None, encoded_frame_count = None\<rparr>,
                average_rate = None, guessed_rate = None, base_rate = Some 25\<rparr>],
            audio = [\<lparr>codec_name = ''aac''\<rparr>], duration = Some 10000000,
            demux = [Inr \<lparr>dts = Some 0, packet_type = Video,
                          decode = (Inl FFmpegError :: py_error + nat list)\<rparr>]\<rparr>)]
     \<lparr>directory = ''/v'', file_name = ''a'', extension = ''.mp4''\<rparr> False 10 None
     = [Opened, Demuxed, Raise FFmpegError]"
  by (simp add: run_def load_video_node_def split_file_path_def av_open_def prepare_def
      item0_def resolve_fps_cases truthy_def converted_values estimate_frame_count_def
      float_operation_values py_float_def py_int_def iterator_def loop_body_def)

end
